theory Spec2Isabelle
  imports Main "HOL-Library.AList" "HOL-Library.Product_Lexorder"
begin

section \<open>The log validator \<open>parallel.py\<close>\<close>

text \<open>
  The program reads a delimited text file line by line, accumulates three dictionaries and
  two counters, and then prints the inconsistencies it finds. The model follows CPython 3.7
  or later: a dictionary keeps its keys in insertion order, so a dictionary is an association
  list with distinct keys, in the order the keys were first stored. A \<open>char\<close> stands for a
  code point below 256; an integer is Python's unbounded \<open>int\<close>.
\<close>

subsection \<open>Strings\<close>

text \<open>\<open>str.isspace\<close> on the code points below 256: TAB to CR, FS to US, the space, NEL
  and the no-break space. \<open>str.strip()\<close> removes exactly these.\<close>

definition py_isspace :: "char \<Rightarrow> bool" where
  "py_isspace c = (of_char c \<in> {9, 10, 11, 12, 13, 28, 29, 30, 31, 32, 133, 160 :: nat})"

definition py_strip :: "string \<Rightarrow> string" where
  "py_strip s = rev (dropWhile py_isspace (rev (dropWhile py_isspace s)))"

definition is_digit :: "char \<Rightarrow> bool" where
  "is_digit c = (48 \<le> (of_char c :: nat) \<and> (of_char c :: nat) \<le> 57)"

definition digit_val :: "char \<Rightarrow> int" where
  "digit_val c = int (of_char c) - 48"

text \<open>The digits of a decimal literal as \<open>int()\<close> accepts them: a single underscore may
  stand between two digits.\<close>

fun py_digits :: "int \<Rightarrow> string \<Rightarrow> int option" where
  "py_digits acc [] = Some acc"
| "py_digits acc (c # cs) =
     (if is_digit c then py_digits (acc * 10 + digit_val c) cs
      else if c = CHR ''_'' then
        (case cs of
           [] \<Rightarrow> None
         | d # ds \<Rightarrow> if is_digit d then py_digits (acc * 10 + digit_val d) ds else None)
      else None)"

definition py_unsigned :: "string \<Rightarrow> int option" where
  "py_unsigned s =
     (case s of
        [] \<Rightarrow> None
      | c # cs \<Rightarrow> if is_digit c then py_digits (digit_val c) cs else None)"

text \<open>\<open>int(s)\<close> in base 10. The whitespace around the number is skipped: the C
  whitespace (TAB to CR and the space; FS to US are not skipped here) and the two
  whitespace code points above 127. One sign is allowed, and anything else raises
  \<open>ValueError\<close> (here \<open>None\<close>). The limit that CPython 3.11 and later put on the number of
  digits (4300 unless configured) is left out.\<close>

definition int_isspace :: "char \<Rightarrow> bool" where
  "int_isspace c = (of_char c \<in> {9, 10, 11, 12, 13, 32, 133, 160 :: nat})"

definition py_int :: "string \<Rightarrow> int option" where
  "py_int s =
     (case rev (dropWhile int_isspace (rev (dropWhile int_isspace s))) of
        [] \<Rightarrow> None
      | c # cs \<Rightarrow>
          if c = CHR ''-'' then map_option uminus (py_unsigned cs)
          else if c = CHR ''+'' then py_unsigned cs
          else py_unsigned (c # cs))"

text \<open>\<open>sub in s\<close> for strings.\<close>

fun py_in :: "string \<Rightarrow> string \<Rightarrow> bool" where
  "py_in sub [] = (sub = [])"
| "py_in sub (c # cs) = (take (length sub) (c # cs) = sub \<or> py_in sub cs)"

datatype error = ValueError | OSError

text \<open>\<open>s.split(sep)\<close> with a separator: the occurrences are taken from the left and do not
  overlap. An empty separator raises \<open>ValueError\<close>.\<close>

fun split_from :: "string \<Rightarrow> string \<Rightarrow> string \<Rightarrow> string list" where
  "split_from sep cur [] = [cur]"
| "split_from sep cur (c # cs) =
     (if sep \<noteq> [] \<and> take (length sep) (c # cs) = sep
      then cur # split_from sep [] (drop (length sep) (c # cs))
      else split_from sep (cur @ [c]) cs)"

definition py_split :: "string \<Rightarrow> string \<Rightarrow> error + string list" where
  "py_split s sep = (if sep = [] then Inl ValueError else Inr (split_from sep [] s))"

text \<open>Iterating over a text file yields its lines, each with its newline; a last line
  without a newline is yielded as it is. The text is the decoded content of the file, its
  line ends already translated to the newline character, as the text mode does.\<close>

fun lines_from :: "string \<Rightarrow> string \<Rightarrow> string list" where
  "lines_from cur [] = (if cur = [] then [] else [cur])"
| "lines_from cur (c # cs) =
     (if c = CHR 0x0A then (cur @ [c]) # lines_from [] cs else lines_from (cur @ [c]) cs)"

definition file_lines :: "string \<Rightarrow> string list" where
  "file_lines content = lines_from [] content"

subsection \<open>Dictionaries\<close>

type_synonym 'k dict = "('k \<times> int) list"

text \<open>Reading \<open>d[k]\<close> from a \<open>defaultdict(int)\<close>: a missing key is stored with the value 0
  before it is returned, so the read returns the dictionary as well.\<close>

definition dd_get :: "'k dict \<Rightarrow> 'k \<Rightarrow> int \<times> 'k dict" where
  "dd_get d k = (case map_of d k of Some v \<Rightarrow> (v, d) | None \<Rightarrow> (0, d @ [(k, 0)]))"

text \<open>\<open>d[k] += 1\<close>: a read, then a store.\<close>

definition dd_incr :: "'k dict \<Rightarrow> 'k \<Rightarrow> 'k dict" where
  "dd_incr d k = (case dd_get d k of (v, d') \<Rightarrow> AList.update k (v + 1) d')"

subsection \<open>The scan\<close>

record logline =
  number_of :: int
  name_of :: string
  count_of :: int

record state =
  totalOperatorCounts :: "string dict"
  maxOperatorSum :: "string dict"
  numberCount :: "int dict"
  total_lines :: int
  max_number :: int

definition init :: state where
  "init = \<lparr>totalOperatorCounts = [], maxOperatorSum = [], numberCount = [],
            total_lines = 0, max_number = 0\<rparr>"

text \<open>Lines 33 to 37: the split into exactly four fields, the two conversions and the
  strip. Each of them fails before anything is stored.\<close>

definition read_line :: "string \<Rightarrow> string \<Rightarrow> error + logline" where
  "read_line separator line =
     (case py_split line separator of
        Inl e \<Rightarrow> Inl e
      | Inr parts \<Rightarrow>
          if length parts \<noteq> 4 then Inl ValueError
          else
            (case py_int (parts ! 1) of
               None \<Rightarrow> Inl ValueError
             | Some number \<Rightarrow>
                 (case py_int (parts ! 3) of
                    None \<Rightarrow> Inl ValueError
                  | Some operator_count \<Rightarrow>
                      Inr \<lparr>number_of = number, name_of = py_strip (parts ! 2),
                           count_of = operator_count\<rparr>)))"

text \<open>Lines 39 to 48: the updates for one line.\<close>

definition accumulate :: "state \<Rightarrow> logline \<Rightarrow> state" where
  "accumulate st r =
     (let totals = dd_incr (totalOperatorCounts st) (name_of r);
          lines = total_lines st + 1;
          (m, maxs) = dd_get (maxOperatorSum st) (name_of r);
          maxs' = (if m < count_of r then AList.update (name_of r) (count_of r) maxs else maxs);
          numbers = dd_incr (numberCount st) (number_of r);
          mx = (if number_of r > max_number st then number_of r else max_number st)
      in \<lparr>totalOperatorCounts = totals, maxOperatorSum = maxs', numberCount = numbers,
           total_lines = lines, max_number = mx\<rparr>)"

text \<open>The loop over the lines. An exception leaves the loop with the state as it was
  before the offending line.\<close>

fun scan :: "string \<Rightarrow> state \<Rightarrow> string list \<Rightarrow> (error \<times> state) + state" where
  "scan separator st [] = Inr st"
| "scan separator st (line # rest) =
     (case read_line separator line of
        Inl e \<Rightarrow> Inl (e, st)
      | Inr r \<Rightarrow> scan separator (accumulate st r) rest)"

subsection \<open>The checks after the scan\<close>

text \<open>One \<open>print\<close> call is the list of its arguments.\<close>

datatype pyval = PStr string | PInt int | PKeys "string list"

type_synonym stdout = "pyval list list"

text \<open>Lines 52 and 53: the two \<open>print\<close> calls for one operator.\<close>

definition operator_report :: "string \<Rightarrow> int \<Rightarrow> int \<Rightarrow> stdout" where
  "operator_report operator m t =
     [[PStr (''OperatorSum for operator '' @ [CHR 0x27]), PStr operator,
       PStr (CHR 0x27 # '' does not match!'')],
      [PStr ''maxOperatorSum: '', PInt m, PStr ''totalOperatorCounts: '', PInt t]]"

text \<open>Lines 50 to 53. The keys come from \<open>maxOperatorSum\<close> itself, so reading it stores
  nothing; \<open>totalOperatorCounts\<close> is read as a \<open>defaultdict\<close>.\<close>

fun operator_loop :: "string list \<Rightarrow> string dict \<Rightarrow> string dict \<Rightarrow> stdout \<times> string dict" where
  "operator_loop [] maxs totals = ([], totals)"
| "operator_loop (operator # rest) maxs totals =
     (case dd_get maxs operator of (m, _) \<Rightarrow>
      case dd_get totals operator of (t, totals') \<Rightarrow>
      case operator_loop rest maxs totals' of (out, totals'') \<Rightarrow>
        ((if m \<noteq> t then operator_report operator m t else []) @ out, totals''))"

definition operator_check :: "state \<Rightarrow> stdout \<times> string dict" where
  "operator_check st =
     operator_loop (map fst (maxOperatorSum st)) (maxOperatorSum st) (totalOperatorCounts st)"

text \<open>Line 58: the baseline is a \<open>defaultdict\<close> read of key 1.\<close>

definition parallel_sources :: "state \<Rightarrow> int \<times> int dict" where
  "parallel_sources st = dd_get (numberCount st) 1"

text \<open>Line 62: the \<open>print\<close> call for one sequence number.\<close>

definition sequence_report :: "int \<Rightarrow> int \<Rightarrow> int \<Rightarrow> pyval list" where
  "sequence_report key v numberOfParallelSources =
     [PInt key, PStr '' has not been received by all sources, instead'', PInt v,
      PStr '' #Sources: '', PInt numberOfParallelSources]"

text \<open>Lines 60 to 62, over \<open>sorted(numberCount.items())\<close>.\<close>

fun sequence_loop :: "(int \<times> int) list \<Rightarrow> int \<Rightarrow> stdout" where
  "sequence_loop [] numberOfParallelSources = []"
| "sequence_loop ((key, v) # rest) numberOfParallelSources =
     (if v \<noteq> numberOfParallelSources then [sequence_report key v numberOfParallelSources]
      else []) @ sequence_loop rest numberOfParallelSources"

definition sequence_check :: "state \<Rightarrow> stdout" where
  "sequence_check st =
     (case parallel_sources st of (numberOfParallelSources, numbers) \<Rightarrow>
        sequence_loop (sort numbers) numberOfParallelSources)"

text \<open>Lines 55 and 64 to 66.\<close>

definition range_check :: "state \<Rightarrow> stdout" where
  "range_check st =
     (let mx = max_number st + 1;
          numberOfParallelSources = fst (parallel_sources st)
      in if total_lines st \<noteq> mx * numberOfParallelSources
         then [[PStr ''Number of lines does not match counted elements!''],
               [PStr ''-> Total lines: '', PInt (total_lines st), PStr '' - Max Number: '', PInt mx]]
         else [])"

text \<open>Lines 68 to 70, on \<open>totalOperatorCounts\<close> as the operator loop left it.\<close>

definition per_operator_check :: "state \<Rightarrow> stdout" where
  "per_operator_check st =
     (let totals = snd (operator_check st)
      in if total_lines st \<noteq> sum_list (map snd totals)
         then [[PStr ''Number of lines does not match counted elements per operator!''],
               [PStr ''Saw operators: '', PKeys (map fst totals)]]
         else [])"

definition summary :: "state \<Rightarrow> stdout" where
  "summary st = [[PStr ''Saw '', PInt (total_lines st), PStr '' lines'']]"

definition report :: "state \<Rightarrow> stdout" where
  "report st =
     fst (operator_check st) @ sequence_check st @ range_check st @ per_operator_check st
       @ summary st"

subsection \<open>The two functions of the program\<close>

text \<open>How a run ends: it returns, an exception escapes, or \<open>sys.exit\<close> is called; each
  with what was printed before. The files are a function from a path to the text of the
  file, \<open>None\<close> where \<open>open\<close> raises.\<close>

datatype outcome =
  Returned stdout
| Raised error stdout
| SysExit int stdout

definition parse :: "(string \<Rightarrow> string option) \<Rightarrow> string \<Rightarrow> string \<Rightarrow> outcome" where
  "parse files inputfile separator =
     (case files inputfile of
        None \<Rightarrow> Raised OSError []
      | Some content \<Rightarrow>
          (case scan separator init (file_lines content) of
             Inl (e, st) \<Rightarrow> Raised e []
           | Inr st \<Rightarrow> Returned (report st)))"

definition usage :: stdout where
  "usage = [[PStr ''Usage: verify.py <inputfile> --separator='']]"

definition separator_of :: "string list \<Rightarrow> string" where
  "separator_of argv =
     (if length argv = 2 \<and> py_in ''--separator='' (argv ! 1) then drop 12 (argv ! 1)
      else '','')"

definition main :: "(string \<Rightarrow> string option) \<Rightarrow> string list \<Rightarrow> outcome" where
  "main files argv =
     (if length argv > 2 \<or> length argv = 0 then SysExit 2 usage
      else parse files (argv ! 0) (separator_of argv))"

section \<open>Properties\<close>

subsection \<open>Facts about the dictionaries\<close>

lemma dd_get_fst: "fst (dd_get d k) = (case map_of d k of Some v \<Rightarrow> v | None \<Rightarrow> 0)"
  by (simp add: dd_get_def split: option.splits)

lemma map_of_None_keys: "(map_of d k = None) = (k \<notin> set (map fst d))"
  by (simp add: map_of_eq_None_iff)

lemma dd_get_absent: "k \<notin> set (map fst d) \<Longrightarrow> dd_get d k = (0, d @ [(k, 0)])"
  using map_of_None_keys [of d k] by (simp add: dd_get_def)

lemma dd_get_present: "k \<in> set (map fst d) \<Longrightarrow> snd (dd_get d k) = d"
  using map_of_None_keys [of d k] by (cases "map_of d k") (simp_all add: dd_get_def)

lemma dd_get_keys:
  "map fst (snd (dd_get d k)) = (if k \<in> set (map fst d) then map fst d else map fst d @ [k])"
  by (simp add: dd_get_present dd_get_absent)

lemma dd_get_map_of:
  "map_of (snd (dd_get d k)) = (map_of d)(k \<mapsto> fst (dd_get d k))"
  by (cases "map_of d k") (auto simp: dd_get_def fun_eq_iff map_add_def split: option.splits)

lemma update_keys_present:
  "k \<in> set (map fst d) \<Longrightarrow> map fst (AList.update k v d) = map fst d"
  by (simp add: update_keys)

lemma dd_incr_keys:
  "map fst (dd_incr d k) = (if k \<in> set (map fst d) then map fst d else map fst d @ [k])"
  using map_of_None_keys [of d k]
  by (cases "map_of d k") (auto simp: dd_incr_def dd_get_def update_keys)

lemma dd_incr_map_of:
  "map_of (dd_incr d k) = (map_of d)(k \<mapsto> (case map_of d k of Some v \<Rightarrow> v | None \<Rightarrow> 0) + 1)"
  by (auto simp: dd_incr_def dd_get_def update_conv' fun_eq_iff map_add_def split: option.splits)

lemma tally_keys:
  "distinct (map fst (foldl dd_incr [] ks)) \<and> set (map fst (foldl dd_incr [] ks)) = set ks"
  by (induction ks rule: rev_induct) (auto simp: dd_incr_keys)

lemma tally_map_of:
  "map_of (foldl dd_incr [] ks) k = (if k \<in> set ks then Some (int (count_list ks k)) else None)"
proof (induction ks rule: rev_induct)
  case Nil
  then show ?case by simp
next
  case (snoc x xs)
  then show ?case by (auto simp: dd_incr_map_of)
qed

subsection \<open>Facts about the scan\<close>

lemma scan_ok:
  "map (read_line separator) lines = map Inr rs \<Longrightarrow>
   scan separator st lines = Inr (foldl accumulate st rs)"
proof (induction lines arbitrary: st rs)
  case Nil
  then show ?case by simp
next
  case (Cons line rest)
  then obtain r rs' where rs: "rs = r # rs'" by (cases rs) auto
  with Cons.prems have "read_line separator line = Inr r"
    and "map (read_line separator) rest = map Inr rs'" by simp_all
  with Cons.IH [of rs' "accumulate st r"] rs show ?case by simp
qed

lemma scan_records:
  "scan separator st lines = Inr st' \<Longrightarrow>
   \<exists>rs. map (read_line separator) lines = map Inr rs"
proof (induction lines arbitrary: st)
  case Nil
  then show ?case by simp
next
  case (Cons line rest)
  then obtain r where r: "read_line separator line = Inr r"
    by (cases "read_line separator line") auto
  with Cons.prems have "scan separator (accumulate st r) rest = Inr st'" by simp
  from Cons.IH [OF this] obtain rs where "map (read_line separator) rest = map Inr rs" ..
  with r have "map (read_line separator) (line # rest) = map Inr (r # rs)" by simp
  then show ?case by blast
qed

lemma total_lines_foldl:
  "total_lines (foldl accumulate st rs) = total_lines st + int (length rs)"
  by (induction rs arbitrary: st) (simp_all add: accumulate_def Let_def split: prod.splits)

lemma numberCount_foldl:
  "numberCount (foldl accumulate st rs) = foldl dd_incr (numberCount st) (map number_of rs)"
  by (induction rs arbitrary: st) (simp_all add: accumulate_def Let_def split: prod.splits)

lemma totalOperatorCounts_foldl:
  "totalOperatorCounts (foldl accumulate st rs) =
   foldl dd_incr (totalOperatorCounts st) (map name_of rs)"
  by (induction rs arbitrary: st) (simp_all add: accumulate_def Let_def split: prod.splits)

lemma Max_snoc: "Max (set (a # xs @ [c])) = max c (Max (set (a # xs)))"
proof -
  have "set (a # xs @ [c]) = insert c (set (a # xs))" by auto
  moreover have "Max (insert c (set (a # xs))) = max c (Max (set (a # xs)))"
    by (rule Max_insert) simp_all
  ultimately show ?thesis by (simp only:)
qed

lemma Max_cons_max: "Max (set (max a b # xs)) = Max (set (a # b # xs))"
proof (cases "xs = []")
  case True
  then show ?thesis by simp
next
  case False
  then show ?thesis by (simp add: max.assoc)
qed

lemma max_number_foldl:
  "max_number (foldl accumulate st rs) = Max (set (max_number st # map number_of rs))"
proof (induction rs arbitrary: st)
  case Nil
  then show ?case by simp
next
  case (Cons r rs)
  have "max_number (accumulate st r) = max (max_number st) (number_of r)"
    by (simp add: accumulate_def Let_def max_def split: prod.splits)
  then have "max_number (foldl accumulate st (r # rs)) =
      Max (set (max (max_number st) (number_of r) # map number_of rs))"
    using Cons.IH [of "accumulate st r"] by simp
  also have "\<dots> = Max (set (max_number st # number_of r # map number_of rs))"
    by (rule Max_cons_max)
  finally show ?case by simp
qed

lemma maxOperatorSum_step_keys:
  "map fst (maxOperatorSum (accumulate st r)) =
   (if name_of r \<in> set (map fst (maxOperatorSum st)) then map fst (maxOperatorSum st)
    else map fst (maxOperatorSum st) @ [name_of r])"
proof -
  obtain m maxs where g: "dd_get (maxOperatorSum st) (name_of r) = (m, maxs)"
    by (cases "dd_get (maxOperatorSum st) (name_of r)")
  have k: "map fst maxs = (if name_of r \<in> set (map fst (maxOperatorSum st))
      then map fst (maxOperatorSum st) else map fst (maxOperatorSum st) @ [name_of r])"
    using dd_get_keys [of "maxOperatorSum st" "name_of r"] g by simp
  then have "name_of r \<in> set (map fst maxs)" by (simp split: if_splits)
  then have "map fst (AList.update (name_of r) (count_of r) maxs) = map fst maxs"
    by (rule update_keys_present)
  with g k show ?thesis by (simp add: accumulate_def Let_def)
qed

lemma maxOperatorSum_step_map_of:
  "map_of (maxOperatorSum (accumulate st r)) =
   (map_of (maxOperatorSum st))
     (name_of r \<mapsto> max (count_of r) (case map_of (maxOperatorSum st) (name_of r) of
        Some v \<Rightarrow> v | None \<Rightarrow> 0))"
proof -
  obtain m maxs where g: "dd_get (maxOperatorSum st) (name_of r) = (m, maxs)"
    by (cases "dd_get (maxOperatorSum st) (name_of r)")
  have m: "m = (case map_of (maxOperatorSum st) (name_of r) of Some v \<Rightarrow> v | None \<Rightarrow> 0)"
    using dd_get_fst [of "maxOperatorSum st" "name_of r"] g by simp
  have mo: "map_of maxs = (map_of (maxOperatorSum st))(name_of r \<mapsto> m)"
    using dd_get_map_of [of "maxOperatorSum st" "name_of r"] g by simp
  show ?thesis using g mo m
    by (auto simp: accumulate_def Let_def update_conv' max_def)
qed

lemma keys_foldl:
  "map fst (maxOperatorSum st) = map fst (totalOperatorCounts st) \<Longrightarrow>
   map fst (maxOperatorSum (foldl accumulate st rs)) =
   map fst (totalOperatorCounts (foldl accumulate st rs))"
proof (induction rs arbitrary: st)
  case Nil
  then show ?case by simp
next
  case (Cons r rs)
  have "totalOperatorCounts (accumulate st r) = dd_incr (totalOperatorCounts st) (name_of r)"
    by (simp add: accumulate_def Let_def split: prod.splits)
  then have "map fst (maxOperatorSum (accumulate st r)) =
      map fst (totalOperatorCounts (accumulate st r))"
    using Cons.prems by (simp add: maxOperatorSum_step_keys dd_incr_keys)
  from Cons.IH [OF this] show ?case by simp
qed

lemma maxOperatorSum_map_of:
  "map_of (maxOperatorSum (foldl accumulate init rs)) n =
   (if n \<in> set (map name_of rs)
    then Some (Max (set (0 # map count_of (filter (\<lambda>r. name_of r = n) rs))))
    else None)"
proof (induction rs rule: rev_induct)
  case Nil
  then show ?case by (simp add: init_def)
next
  case (snoc r rs)
  let ?st = "foldl accumulate init rs"
  let ?cs = "map count_of (filter (\<lambda>r. name_of r = n) rs)"
  show ?case
  proof (cases "name_of r = n")
    case True
    have old: "(case map_of (maxOperatorSum ?st) n of Some v \<Rightarrow> v | None \<Rightarrow> 0) = Max (set (0 # ?cs))"
    proof (cases "n \<in> set (map name_of rs)")
      case True
      with snoc show ?thesis by simp
    next
      case False
      then have "filter (\<lambda>r. name_of r = n) rs = []" by (auto simp: filter_empty_conv)
      with False snoc show ?thesis by simp
    qed
    have "map_of (maxOperatorSum (foldl accumulate init (rs @ [r]))) n =
        Some (max (count_of r) (Max (set (0 # ?cs))))"
      using True old by (simp add: maxOperatorSum_step_map_of)
    also have "max (count_of r) (Max (set (0 # ?cs))) = Max (set (0 # ?cs @ [count_of r]))"
      by (rule Max_snoc [symmetric])
    finally show ?thesis using True by simp
  next
    case False
    then show ?thesis using snoc
      by (simp add: maxOperatorSum_step_map_of)
  qed
qed

subsection \<open>Facts about the loops of the report\<close>

lemma operator_loop_eq:
  "set ks \<subseteq> set (map fst totals) \<Longrightarrow>
   operator_loop ks maxs totals =
   (concat (map (\<lambda>k. if fst (dd_get maxs k) \<noteq> fst (dd_get totals k)
                       then operator_report k (fst (dd_get maxs k)) (fst (dd_get totals k))
                       else []) ks), totals)"
proof (induction ks)
  case Nil
  then show ?case by simp
next
  case (Cons k ks)
  then have "snd (dd_get totals k) = totals" by (simp add: dd_get_present)
  then obtain t where g: "dd_get totals k = (t, totals)"
    by (cases "dd_get totals k") simp
  have "set ks \<subseteq> set (map fst totals)" using Cons.prems by simp
  from Cons.IH [OF this] show ?case
    by (simp add: g split: prod.splits)
qed

lemma sequence_loop_eq:
  "sequence_loop items n =
   map (\<lambda>(k, v). sequence_report k v n) (filter (\<lambda>(k, v). v \<noteq> n) items)"
  by (induction items n rule: sequence_loop.induct) simp_all

lemma sorted_fst: "sorted (xs :: (int \<times> int) list) \<Longrightarrow> sorted (map fst xs)"
  by (induction xs) (auto simp: less_eq_prod_def)

lemma sort_keys:
  assumes "distinct (map fst (xs :: (int \<times> int) list))"
  shows "map fst (sort xs) = sorted_list_of_set (set (map fst xs))"
proof -
  have d: "distinct (map fst (sort xs))" using assms by (simp add: distinct_map)
  have s: "set (map fst (sort xs)) = set (map fst xs)" by simp
  have "sorted (map fst (sort xs))" by (rule sorted_fst) simp
  with d s show ?thesis
    by (metis sorted_list_of_set.idem_if_sorted_distinct)
qed

lemma sort_items:
  assumes "distinct (map fst (xs :: (int \<times> int) list))"
  shows "sort xs = map (\<lambda>k. (k, the (map_of xs k))) (sorted_list_of_set (set (map fst xs)))"
proof -
  have "\<And>p. p \<in> set (sort xs) \<Longrightarrow> (fst p, the (map_of xs (fst p))) = p"
  proof -
    fix p assume "p \<in> set (sort xs)"
    then have "(fst p, snd p) \<in> set xs" by simp
    with assms have "map_of xs (fst p) = Some (snd p)" by (rule map_of_is_SomeI)
    then show "(fst p, the (map_of xs (fst p))) = p" by simp
  qed
  then have "map (\<lambda>p. (fst p, the (map_of xs (fst p)))) (sort xs) = sort xs"
    by (rule map_idI)
  then have "sort xs = map (\<lambda>k. (k, the (map_of xs k))) (map fst (sort xs))"
    by (simp add: comp_def)
  with sort_keys [OF assms] show ?thesis by simp
qed

subsection \<open>The state after a scan that succeeds\<close>

lemma count_list_map:
  "count_list (map f xs) y = length (filter (\<lambda>x. f x = y) xs)"
  by (induction xs) simp_all

lemma final_total_lines: "total_lines (foldl accumulate init rs) = int (length rs)"
  by (simp add: total_lines_foldl init_def)

lemma final_max_number:
  "max_number (foldl accumulate init rs) = Max (set (0 # map number_of rs))"
  by (simp only: max_number_foldl) (simp add: init_def)

lemma final_numberCount:
  "numberCount (foldl accumulate init rs) = foldl dd_incr [] (map number_of rs)"
  by (simp add: numberCount_foldl init_def)

lemma final_totals:
  "totalOperatorCounts (foldl accumulate init rs) = foldl dd_incr [] (map name_of rs)"
  by (simp add: totalOperatorCounts_foldl init_def)

lemma final_keys:
  "map fst (maxOperatorSum (foldl accumulate init rs)) =
   map fst (totalOperatorCounts (foldl accumulate init rs))"
  by (rule keys_foldl) (simp add: init_def)

lemma final_operator_keys:
  "distinct (map fst (maxOperatorSum (foldl accumulate init rs)))"
  "set (map fst (maxOperatorSum (foldl accumulate init rs))) = set (map name_of rs)"
  using tally_keys [of "map name_of rs"] by (simp_all only: final_keys final_totals)

lemma final_total_of:
  "n \<in> set (map name_of rs) \<Longrightarrow>
   fst (dd_get (totalOperatorCounts (foldl accumulate init rs)) n) =
   int (length (filter (\<lambda>r. name_of r = n) rs))"
  by (simp add: dd_get_fst final_totals tally_map_of count_list_map)

lemma final_max_of:
  "n \<in> set (map name_of rs) \<Longrightarrow>
   fst (dd_get (maxOperatorSum (foldl accumulate init rs)) n) =
   Max (set (0 # map count_of (filter (\<lambda>r. name_of r = n) rs)))"
  by (simp only: dd_get_fst maxOperatorSum_map_of) simp

lemma final_operator_check:
  "operator_check (foldl accumulate init rs) =
   (concat (map (\<lambda>n.
      if Max (set (0 # map count_of (filter (\<lambda>r. name_of r = n) rs)))
           \<noteq> int (length (filter (\<lambda>r. name_of r = n) rs))
      then operator_report n (Max (set (0 # map count_of (filter (\<lambda>r. name_of r = n) rs))))
             (int (length (filter (\<lambda>r. name_of r = n) rs)))
      else []) (map fst (maxOperatorSum (foldl accumulate init rs)))),
    totalOperatorCounts (foldl accumulate init rs))"
proof -
  let ?st = "foldl accumulate init rs"
  have sub: "set (map fst (maxOperatorSum ?st)) \<subseteq> set (map fst (totalOperatorCounts ?st))"
    by (simp only: final_keys)
  have "\<And>n. n \<in> set (map fst (maxOperatorSum ?st)) \<Longrightarrow> n \<in> set (map name_of rs)"
    by (simp only: final_operator_keys)
  then show ?thesis
    unfolding operator_check_def operator_loop_eq [OF sub]
    by (auto intro!: arg_cong [where f = concat] map_cong simp only: final_total_of final_max_of prod.inject)
qed

lemma final_sources:
  "fst (parallel_sources (foldl accumulate init rs)) = int (count_list (map number_of rs) 1)"
  by (simp add: parallel_sources_def dd_get_fst final_numberCount tally_map_of)

lemma final_sources_keys:
  "distinct (map fst (snd (parallel_sources (foldl accumulate init rs))))"
  "set (map fst (snd (parallel_sources (foldl accumulate init rs)))) =
   insert 1 (set (map number_of rs))"
  using tally_keys [of "map number_of rs"]
  by (auto simp: parallel_sources_def dd_get_keys final_numberCount)

lemma final_sources_map_of:
  "k \<in> set (map number_of rs) \<Longrightarrow>
   map_of (snd (parallel_sources (foldl accumulate init rs))) k =
   Some (int (count_list (map number_of rs) k))"
  by (auto simp: parallel_sources_def dd_get_map_of dd_get_fst final_numberCount tally_map_of)

lemma final_sources_absent:
  "1 \<notin> set (map number_of rs) \<Longrightarrow>
   parallel_sources (foldl accumulate init rs) =
   (0, numberCount (foldl accumulate init rs) @ [(1, 0)])"
  using tally_keys [of "map number_of rs"]
  by (simp add: parallel_sources_def final_numberCount dd_get_absent)

subsection \<open>The per-sequence-number check and the sum of the totals\<close>

lemma filter_sorted_list_of_set:
  "finite A \<Longrightarrow> filter P (sorted_list_of_set A) = sorted_list_of_set {x \<in> A. P x}"
  by (rule sorted_distinct_set_unique) (simp_all add: sorted_filter [where f = id, simplified])

lemma final_sources_lookup:
  assumes "k \<in> insert 1 (set (map number_of rs))"
  shows "the (map_of (snd (parallel_sources (foldl accumulate init rs))) k) =
         int (count_list (map number_of rs) k)"
proof -
  let ?st = "foldl accumulate init rs"
  have mo: "map_of (snd (parallel_sources ?st)) =
      (map_of (numberCount ?st))(1 \<mapsto> fst (parallel_sources ?st))"
    by (simp add: parallel_sources_def dd_get_map_of)
  show ?thesis
  proof (cases "k = 1")
    case True
    then show ?thesis by (simp add: mo final_sources)
  next
    case False
    with assms have "k \<in> set (map number_of rs)" by simp
    with False show ?thesis by (simp add: mo final_numberCount tally_map_of)
  qed
qed

lemma final_sequence_check:
  "sequence_check (foldl accumulate init rs) =
   map (\<lambda>k. sequence_report k (int (count_list (map number_of rs) k))
               (int (count_list (map number_of rs) 1)))
     (sorted_list_of_set
        {k \<in> set (map number_of rs).
           int (count_list (map number_of rs) k) \<noteq> int (count_list (map number_of rs) 1)})"
proof -
  let ?st = "foldl accumulate init rs"
  let ?ns = "map number_of rs"
  let ?base = "int (count_list ?ns 1)"
  let ?numbers = "snd (parallel_sources ?st)"
  let ?keys = "sorted_list_of_set (insert 1 (set ?ns))"
  have "sort ?numbers = map (\<lambda>k. (k, the (map_of ?numbers k))) ?keys"
    using sort_items [OF final_sources_keys(1) [of rs]] by (simp only: final_sources_keys(2))
  also have "\<dots> = map (\<lambda>k. (k, int (count_list ?ns k))) ?keys"
  proof (rule map_cong [OF refl])
    fix k assume "k \<in> set ?keys"
    moreover have "set ?keys = insert 1 (set ?ns)" by (rule set_sorted_list_of_set) simp
    ultimately have "k \<in> insert 1 (set ?ns)" by (simp only:)
    then show "(k, the (map_of ?numbers k)) = (k, int (count_list ?ns k))"
      by (simp only: final_sources_lookup)
  qed
  finally have srt: "sort ?numbers = map (\<lambda>k. (k, int (count_list ?ns k))) ?keys" .
  have "sequence_check ?st = sequence_loop (sort ?numbers) ?base"
    by (simp add: sequence_check_def case_prod_unfold final_sources)
  also have "\<dots> = map (\<lambda>(k, v). sequence_report k v ?base)
      (filter (\<lambda>(k, v). v \<noteq> ?base) (map (\<lambda>k. (k, int (count_list ?ns k))) ?keys))"
    by (simp only: sequence_loop_eq srt)
  also have "\<dots> = map (\<lambda>k. sequence_report k (int (count_list ?ns k)) ?base)
        (filter (\<lambda>k. int (count_list ?ns k) \<noteq> ?base) ?keys)"
    by (simp only: filter_map map_map comp_def prod.case)
  finally have "sequence_check ?st =
      map (\<lambda>k. sequence_report k (int (count_list ?ns k)) ?base)
        (filter (\<lambda>k. int (count_list ?ns k) \<noteq> ?base) ?keys)" .
  also have "filter (\<lambda>k. int (count_list ?ns k) \<noteq> ?base) ?keys =
      sorted_list_of_set {k \<in> insert 1 (set ?ns). int (count_list ?ns k) \<noteq> ?base}"
    by (rule filter_sorted_list_of_set) simp
  also have "{k \<in> insert 1 (set ?ns). int (count_list ?ns k) \<noteq> ?base} =
      {k \<in> set ?ns. int (count_list ?ns k) \<noteq> ?base}"
    by auto
  finally show ?thesis .
qed

lemma update_sum:
  "map_of d k = Some v \<Longrightarrow>
   sum_list (map snd (AList.update k w d)) = sum_list (map snd d) - v + (w :: int)"
  by (induction d) (auto split: if_splits)

lemma dd_incr_sum: "sum_list (map snd (dd_incr d k)) = sum_list (map snd d) + 1"
proof (cases "map_of d k")
  case None
  then have "map_of (d @ [(k, 0)]) k = Some 0" by (simp add: map_add_def)
  from update_sum [OF this, of 1] None show ?thesis by (simp add: dd_incr_def dd_get_def)
next
  case (Some v)
  from update_sum [OF this, of "v + 1"] Some show ?thesis by (simp add: dd_incr_def dd_get_def)
qed

lemma accumulate_sum:
  "total_lines (accumulate st r) = total_lines st + 1 \<and>
   sum_list (map snd (totalOperatorCounts (accumulate st r))) =
     sum_list (map snd (totalOperatorCounts st)) + 1"
  by (simp add: accumulate_def Let_def dd_incr_sum split: prod.splits)

lemma final_sum:
  "total_lines (foldl accumulate init rs) =
   sum_list (map snd (totalOperatorCounts (foldl accumulate init rs)))"
  by (induction rs rule: rev_induct) (simp_all add: accumulate_sum init_def)

subsection \<open>A scan that succeeds, and one that stops\<close>

lemma scan_state:
  "map (read_line separator) lines = map Inr rs \<Longrightarrow> scan separator init lines = Inr st \<Longrightarrow>
   st = foldl accumulate init rs"
  using scan_ok [of separator lines rs init] by simp

lemma scan_stops:
  "map (read_line separator) good = map Inr rs \<Longrightarrow> read_line separator bad = Inl e \<Longrightarrow>
   scan separator st (good @ bad # rest) = Inl (e, foldl accumulate st rs)"
proof (induction good arbitrary: st rs)
  case Nil
  then show ?case by simp
next
  case (Cons line good)
  then obtain r rs' where rs: "rs = r # rs'" by (cases rs) auto
  with Cons.prems have "read_line separator line = Inr r"
    and "map (read_line separator) good = map Inr rs'" by simp_all
  with Cons.IH [of rs' "accumulate st r"] Cons.prems(2) rs show ?case by simp
qed

lemma read_line_fails:
  assumes "\<forall>parts. py_split bad separator = Inr parts \<longrightarrow>
      length parts \<noteq> 4 \<or> py_int (parts ! 1) = None \<or> py_int (parts ! 3) = None"
  shows "read_line separator bad = Inl ValueError"
proof (cases "py_split bad separator")
  case (Inl e)
  then have "e = ValueError" by (simp add: py_split_def split: if_splits)
  with Inl show ?thesis by (simp add: read_line_def)
next
  case (Inr parts)
  with assms have "length parts \<noteq> 4 \<or> py_int (parts ! 1) = None \<or> py_int (parts ! 3) = None"
    by simp
  with Inr show ?thesis by (auto simp: read_line_def split: option.splits)
qed

lemma parse_prints_report:
  "files inputfile = Some content \<Longrightarrow> scan separator init (file_lines content) = Inr st \<Longrightarrow>
   parse files inputfile separator =
   Returned (fst (operator_check st) @ sequence_check st @ range_check st @
     per_operator_check st @ summary st)"
  by (simp add: parse_def report_def)

subsection \<open>Lists\<close>

lemma concat_map_single:
  "distinct ks \<Longrightarrow> a \<in> set ks \<Longrightarrow> (\<And>k. k \<in> set ks \<Longrightarrow> k \<noteq> a \<Longrightarrow> f k = []) \<Longrightarrow>
   concat (map f ks) = f a"
proof (induction ks)
  case Nil
  then show ?case by simp
next
  case (Cons k ks)
  show ?case
  proof (cases "k = a")
    case True
    with Cons.prems have "\<And>x. x \<in> set ks \<Longrightarrow> f x = []" by auto
    then have "concat (map f ks) = []" by simp
    with True show ?thesis by simp
  next
    case False
    with Cons show ?thesis by simp
  qed
qed

subsection \<open>A log without discrepancies\<close>

lemma happy_numbers:
  assumes "\<forall>k. count_list ns k = (if 0 \<le> k \<and> k < int N then S else 0)"
  shows "set ns = (if S = 0 then {} else {0..<int N})"
proof -
  have "k \<in> set ns \<longleftrightarrow> S \<noteq> 0 \<and> 0 \<le> k \<and> k < int N" for k
  proof -
    have "k \<in> set ns \<longleftrightarrow> count_list ns k \<noteq> 0" by (simp only: count_list_0_iff not_not)
    also have "count_list ns k = (if 0 \<le> k \<and> k < int N then S else 0)" using assms by blast
    finally show ?thesis by (simp split: if_splits)
  qed
  then show ?thesis by (simp add: set_eq_iff)
qed

lemma happy_length:
  assumes "\<forall>k. count_list ns k = (if 0 \<le> k \<and> k < int N then S else 0)"
  shows "length ns = S * N"
proof -
  have "length ns = sum (count_list ns) (set ns)"
    by (rule sum_count_set [symmetric]) simp_all
  also have "\<dots> = sum (\<lambda>k. S) (set ns)"
  proof (rule sum.cong [OF refl])
    fix k assume "k \<in> set ns"
    then have "count_list ns k \<noteq> 0" by (simp only: count_list_0_iff not_not)
    moreover have "count_list ns k = (if 0 \<le> k \<and> k < int N then S else 0)"
      using assms by blast
    ultimately show "count_list ns k = S" by (simp split: if_splits)
  qed
  also have "\<dots> = S * card (set ns)" by simp
  also have "\<dots> = S * N" using happy_numbers [OF assms] by simp
  finally show ?thesis .
qed

lemma happy_max:
  assumes "\<forall>r \<in> set xs. count_of r \<le> int (length xs)"
    and "xs \<noteq> []" and "count_of (last xs) = int (length xs)"
  shows "Max (set (0 # map count_of xs)) = int (length xs)"
proof (rule Max_eqI)
  show "finite (set (0 # map count_of xs))" by simp
  show "y \<le> int (length xs)" if "y \<in> set (0 # map count_of xs)" for y
    using that assms(1) by auto
  have "last xs \<in> set xs" using assms(2) by simp
  then have "count_of (last xs) \<in> set (map count_of xs)" by simp
  with assms(3) show "int (length xs) \<in> set (0 # map count_of xs)" by simp
qed

section \<open>The claims\<close>

text \<open>
  In the theorems below \<open>lines\<close> are the lines of the input file, \<open>rs\<close> the records
  that \<open>read_line\<close> makes of them when every line can be read, and \<open>st\<close> the state in
  which the scan ends. The count of lines with sequence number \<open>k\<close> is
  \<open>count_list (map number_of rs) k\<close>; the lines of operator \<open>n\<close> are
  \<open>filter (\<lambda>r. name_of r = n) rs\<close>. The program prints \<open>report st\<close>, the
  concatenation of the four checks and the summary (lemma \<open>parse_prints_report\<close>).
\<close>

text \<open>
  C1 (amended). A log in which each of the sequence numbers \<open>0..N-1\<close> stands on exactly \<open>S\<close>
  lines and no other sequence number occurs, and in which every operator's count is on
  every line at most the number of that operator's lines and on its last line equal to it,
  is validated without any discrepancy report, and the one line printed is the summary
  with \<open>S * N\<close> lines; provided \<open>N\<close> is not 1 or the log is empty (\<open>S = 0\<close>).
\<close>

theorem happy_path:
  assumes "files inputfile = Some content"
    and "map (read_line separator) (file_lines content) = map Inr rs"
    and "\<forall>k. count_list (map number_of rs) k = (if 0 \<le> k \<and> k < int N then S else 0)"
    and "\<forall>n \<in> set (map name_of rs).
           (\<forall>r \<in> set (filter (\<lambda>r. name_of r = n) rs).
              count_of r \<le> int (length (filter (\<lambda>r. name_of r = n) rs))) \<and>
           count_of (last (filter (\<lambda>r. name_of r = n) rs)) =
             int (length (filter (\<lambda>r. name_of r = n) rs))"
    and "N \<noteq> 1 \<or> S = 0"
  shows "parse files inputfile separator =
         Returned [[PStr ''Saw '', PInt (int (S * N)), PStr '' lines'']]"
proof -
  let ?st = "foldl accumulate init rs"
  let ?ns = "map number_of rs"
  have sc: "scan separator init (file_lines content) = Inr ?st" using assms(2) by (rule scan_ok)
  have len: "length rs = S * N" using happy_length [OF assms(3)] by simp
  have ns: "set ?ns = (if S = 0 then {} else {0..<int N})" using assms(3) by (rule happy_numbers)
  have ops: "fst (operator_check ?st) = []"
  proof -
    have "Max (set (0 # map count_of (filter (\<lambda>r. name_of r = n) rs))) =
        int (length (filter (\<lambda>r. name_of r = n) rs))"
      if "n \<in> set (map fst (maxOperatorSum ?st))" for n
    proof -
      from that have n: "n \<in> set (map name_of rs)" by (simp only: final_operator_keys)
      then have "filter (\<lambda>r. name_of r = n) rs \<noteq> []" by (auto simp: filter_empty_conv)
      moreover from assms(4) n
      have "\<forall>r \<in> set (filter (\<lambda>r. name_of r = n) rs).
              count_of r \<le> int (length (filter (\<lambda>r. name_of r = n) rs))"
        and "count_of (last (filter (\<lambda>r. name_of r = n) rs)) =
             int (length (filter (\<lambda>r. name_of r = n) rs))" by blast+
      ultimately show ?thesis by (intro happy_max)
    qed
    then show ?thesis by (simp add: final_operator_check)
  qed
  have base: "k \<in> set ?ns \<Longrightarrow> count_list ?ns k = count_list ?ns 1" for k
    using assms(3,5) ns by (auto split: if_splits)
  then have "{k \<in> set ?ns. int (count_list ?ns k) \<noteq> int (count_list ?ns 1)} = {}" by auto
  then have seqs: "sequence_check ?st = []" by (simp only: final_sequence_check) simp
  have key: "int (length rs) = (Max (set (0 # ?ns)) + 1) * int (count_list ?ns 1)"
  proof (cases "rs = []")
    case True
    then show ?thesis by simp
  next
    case False
    then have "set ?ns \<noteq> {}" by simp
    with ns assms(5) have S: "S \<noteq> 0" and N: "2 \<le> N" and set: "set ?ns = {0..<int N}"
      by (auto split: if_splits)
    have "Max (set (0 # ?ns)) = int N - 1"
    proof (rule Max_eqI)
      show "finite (set (0 # ?ns))" by simp
      have mem: "y \<in> set (0 # ?ns) \<longleftrightarrow> 0 \<le> y \<and> y < int N" for y
        unfolding list.set(2) set using N by auto
      show "y \<le> int N - 1" if "y \<in> set (0 # ?ns)" for y
        using that unfolding mem by simp
      show "int N - 1 \<in> set (0 # ?ns)" unfolding mem using N by simp
    qed
    moreover have "count_list ?ns 1 = S" using assms(3) N by simp
    ultimately show ?thesis using len by (simp only:) (simp add: algebra_simps)
  qed
  have rng: "range_check ?st = []"
    by (simp only: range_check_def Let_def final_sources final_total_lines final_max_number key)
      simp
  have per: "per_operator_check ?st = []"
    using final_sum [of rs] by (simp add: per_operator_check_def final_operator_check)
  have "report ?st = [[PStr ''Saw '', PInt (int (S * N)), PStr '' lines'']]"
    by (simp add: report_def ops seqs rng per summary_def final_total_lines len)
  with assms(1) sc show ?thesis by (simp add: parse_def)
qed

text \<open>Two sources \<open>a\<close> and \<open>b\<close>, each emitting 0 and 1: \<open>S = 2\<close>, \<open>N = 2\<close>.\<close>

theorem happy_path_witness:
  "parse (\<lambda>p. Some (''t,0,a,1'' @ [CHR 0x0A] @ ''t,0,b,1'' @ [CHR 0x0A] @ ''t,1,a,2'' @ [CHR 0x0A]
       @ ''t,1,b,2'' @ [CHR 0x0A])) ''log'' '','' =
   Returned [[PStr ''Saw '', PInt 4, PStr '' lines'']]"
proof -
  let ?content = "''t,0,a,1'' @ [CHR 0x0A] @ ''t,0,b,1'' @ [CHR 0x0A] @ ''t,1,a,2'' @ [CHR 0x0A]
       @ ''t,1,b,2'' @ [CHR 0x0A]"
  let ?rs = "[\<lparr>number_of = 0, name_of = ''a'', count_of = 1\<rparr>,
      \<lparr>number_of = 0, name_of = ''b'', count_of = 1\<rparr>,
      \<lparr>number_of = 1, name_of = ''a'', count_of = 2\<rparr>,
      \<lparr>number_of = 1, name_of = ''b'', count_of = 2\<rparr>]"
  have r: "map (read_line '','') (file_lines ?content) = map Inr ?rs" by code_simp
  have c: "\<forall>k. count_list (map number_of ?rs) k = (if 0 \<le> k \<and> k < int 2 then 2 else 0)"
    by auto
  have o: "\<forall>n \<in> set (map name_of ?rs).
      (\<forall>r \<in> set (filter (\<lambda>r. name_of r = n) ?rs).
         count_of r \<le> int (length (filter (\<lambda>r. name_of r = n) ?rs))) \<and>
      count_of (last (filter (\<lambda>r. name_of r = n) ?rs)) =
        int (length (filter (\<lambda>r. name_of r = n) ?rs))"
    by simp
  have n: "(2::nat) \<noteq> 1 \<or> (2::nat) = 0" by simp
  from happy_path [of "\<lambda>p. Some ?content" "''log''" ?content "'',''" ?rs 2 2, OF refl r c o n]
  show ?thesis by simp
qed

text \<open>
  The claim as it is written, for every \<open>N\<close>, fails at \<open>S = 1\<close>, \<open>N = 1\<close>: one source
  emits sequence number 0 once, with operator count 1. No line has sequence number 1, the
  baseline is 0, and two checks report.
\<close>

theorem happy_path_counterexample:
  "map (read_line '','') (file_lines (''t,0,a,1'' @ [CHR 0x0A])) =
     map Inr [\<lparr>number_of = 0, name_of = ''a'', count_of = 1\<rparr>] \<and>
   parse (\<lambda>p. Some (''t,0,a,1'' @ [CHR 0x0A])) ''log'' '','' =
     Returned
      [[PInt 0, PStr '' has not been received by all sources, instead'', PInt 1,
        PStr '' #Sources: '', PInt 0],
       [PStr ''Number of lines does not match counted elements!''],
       [PStr ''-> Total lines: '', PInt 1, PStr '' - Max Number: '', PInt 1],
       [PStr ''Saw '', PInt 1, PStr '' lines'']]"
  by code_simp

text \<open>
  C2. When every line can be read, the baseline is the number of lines whose sequence
  number is 1, and the lines that the per-sequence-number check prints are exactly, for
  each observed sequence number whose count of lines differs from the baseline, that
  number with its count and the baseline.
\<close>

theorem baseline_and_sequence_check:
  assumes "map (read_line separator) lines = map Inr rs"
    and "scan separator init lines = Inr st"
  shows "fst (parallel_sources st) = int (count_list (map number_of rs) 1) \<and>
         set (sequence_check st) =
           (\<lambda>k. sequence_report k (int (count_list (map number_of rs) k)) (fst (parallel_sources st))) `
             {k \<in> set (map number_of rs).
                int (count_list (map number_of rs) k) \<noteq> fst (parallel_sources st)}"
proof -
  have st: "st = foldl accumulate init rs" using assms by (rule scan_state)
  have "finite {k \<in> set (map number_of rs).
      int (count_list (map number_of rs) k) \<noteq> int (count_list (map number_of rs) 1)}"
    by simp
  then show ?thesis
    unfolding st final_sources final_sequence_check by (simp only: set_map set_sorted_list_of_set)
qed

theorem baseline_and_sequence_check_witness:
  "fst (parallel_sources \<lparr>totalOperatorCounts = [(''a'', 3)], maxOperatorSum = [(''a'', 3)],
      numberCount = [(1, 2), (7, 1)], total_lines = 3, max_number = 7\<rparr>) = 2 \<and>
   sequence_report 7 1 2 \<in> set (sequence_check \<lparr>totalOperatorCounts = [(''a'', 3)],
      maxOperatorSum = [(''a'', 3)], numberCount = [(1, 2), (7, 1)], total_lines = 3,
      max_number = 7\<rparr>)"
proof -
  let ?lines = "[''t,1,a,1'' @ [CHR 0x0A], ''t,7,a,2'' @ [CHR 0x0A], ''t,1,a,3'' @ [CHR 0x0A]]"
  let ?rs = "[\<lparr>number_of = 1, name_of = ''a'', count_of = 1\<rparr>,
      \<lparr>number_of = 7, name_of = ''a'', count_of = 2\<rparr>,
      \<lparr>number_of = 1, name_of = ''a'', count_of = 3\<rparr>]"
  let ?st = "\<lparr>totalOperatorCounts = [(''a'', 3)], maxOperatorSum = [(''a'', 3)],
      numberCount = [(1, 2), (7, 1)], total_lines = 3, max_number = 7\<rparr>"
  have r: "map (read_line '','') ?lines = map Inr ?rs" by code_simp
  have s: "scan '','' init ?lines = Inr ?st" by code_simp
  note t = baseline_and_sequence_check [OF r s]
  from t have b: "fst (parallel_sources ?st) = 2" by simp
  have "7 \<in> {k \<in> set (map number_of ?rs).
      int (count_list (map number_of ?rs) k) \<noteq> fst (parallel_sources ?st)}"
    unfolding b by simp
  then have "sequence_report 7 (int (count_list (map number_of ?rs) 7)) (fst (parallel_sources ?st))
      \<in> set (sequence_check ?st)"
    unfolding conjunct2 [OF t] by (rule imageI)
  then have "sequence_report 7 1 2 \<in> set (sequence_check ?st)" unfolding b by simp
  with b show ?thesis by (rule conjI)
qed

text \<open>
  C3 (amended). When every line can be read and exactly one operator \<open>a\<close> has a largest
  reported count (0 when all its counts are negative) that differs from the number of its
  lines, while for every other operator the two agree, the operator-count check prints the
  two report lines of \<open>a\<close>, with that largest count and the number of its lines, and
  nothing else.
\<close>

theorem operator_check_flags:
  assumes "map (read_line separator) lines = map Inr rs"
    and "scan separator init lines = Inr st"
    and "a \<in> set (map name_of rs)"
    and "Max (set (0 # map count_of (filter (\<lambda>r. name_of r = a) rs))) \<noteq>
         int (length (filter (\<lambda>r. name_of r = a) rs))"
    and "\<forall>n \<in> set (map name_of rs). n \<noteq> a \<longrightarrow>
           Max (set (0 # map count_of (filter (\<lambda>r. name_of r = n) rs))) =
           int (length (filter (\<lambda>r. name_of r = n) rs))"
  shows "fst (operator_check st) =
         operator_report a (Max (set (0 # map count_of (filter (\<lambda>r. name_of r = a) rs))))
           (int (length (filter (\<lambda>r. name_of r = a) rs)))"
proof -
  have st: "st = foldl accumulate init rs" using assms(1,2) by (rule scan_state)
  let ?f = "\<lambda>n. if Max (set (0 # map count_of (filter (\<lambda>r. name_of r = n) rs)))
           \<noteq> int (length (filter (\<lambda>r. name_of r = n) rs))
      then operator_report n (Max (set (0 # map count_of (filter (\<lambda>r. name_of r = n) rs))))
             (int (length (filter (\<lambda>r. name_of r = n) rs)))
      else []"
  let ?ks = "map fst (maxOperatorSum (foldl accumulate init rs))"
  have "concat (map ?f ?ks) = ?f a"
  proof (rule concat_map_single)
    show "distinct ?ks" by (rule final_operator_keys)
    show "a \<in> set ?ks" using assms(3) by (simp only: final_operator_keys)
    fix k assume "k \<in> set ?ks" and "k \<noteq> a"
    then have "k \<in> set (map name_of rs)" by (simp only: final_operator_keys)
    with assms(5) \<open>k \<noteq> a\<close>
    have "Max (set (0 # map count_of (filter (\<lambda>r. name_of r = k) rs))) =
        int (length (filter (\<lambda>r. name_of r = k) rs))" by blast
    then show "?f k = []" by (simp only: if_False not_True_eq_False refl)
  qed
  with assms(4) show ?thesis by (simp add: st final_operator_check)
qed

text \<open>Operator \<open>a\<close> reports 1 on both of its two lines; operator \<open>b\<close> reports 1 on its
  one line.\<close>

theorem operator_check_flags_witness:
  "fst (operator_check \<lparr>totalOperatorCounts = [(''a'', 2), (''b'', 1)],
      maxOperatorSum = [(''a'', 1), (''b'', 1)], numberCount = [(0, 2), (1, 1)],
      total_lines = 3, max_number = 1\<rparr>) = operator_report ''a'' 1 2"
proof -
  let ?lines = "[''t,0,a,1'' @ [CHR 0x0A], ''t,1,b,1'' @ [CHR 0x0A], ''t,0,a,1'' @ [CHR 0x0A]]"
  let ?rs = "[\<lparr>number_of = 0, name_of = ''a'', count_of = 1\<rparr>,
      \<lparr>number_of = 1, name_of = ''b'', count_of = 1\<rparr>,
      \<lparr>number_of = 0, name_of = ''a'', count_of = 1\<rparr>]"
  let ?st = "\<lparr>totalOperatorCounts = [(''a'', 2), (''b'', 1)],
      maxOperatorSum = [(''a'', 1), (''b'', 1)], numberCount = [(0, 2), (1, 1)],
      total_lines = 3, max_number = 1\<rparr>"
  have r: "map (read_line '','') ?lines = map Inr ?rs" by code_simp
  have s: "scan '','' init ?lines = Inr ?st" by code_simp
  have a: "''a'' \<in> set (map name_of ?rs)" by simp
  have m: "Max (set (0 # map count_of (filter (\<lambda>r. name_of r = ''a'') ?rs))) \<noteq>
      int (length (filter (\<lambda>r. name_of r = ''a'') ?rs))" by simp
  have o: "\<forall>n \<in> set (map name_of ?rs). n \<noteq> ''a'' \<longrightarrow>
      Max (set (0 # map count_of (filter (\<lambda>r. name_of r = n) ?rs))) =
      int (length (filter (\<lambda>r. name_of r = n) ?rs))" by simp
  from operator_check_flags [OF r s a m o] show ?thesis by simp
qed

text \<open>
  The claim as it is written speaks of the last reported count. Operator \<open>a\<close> reports 2
  and then 1 on its two lines, so its last count, 1, differs from the number of its lines,
  2; operator \<open>b\<close> reports 1 and then 2 on its two lines. The check compares the largest
  count, 2 for both, and prints nothing.
\<close>

theorem operator_check_last_counterexample:
  "map (read_line '','')
     [''t,0,a,2'' @ [CHR 0x0A], ''t,1,a,1'' @ [CHR 0x0A], ''t,0,b,1'' @ [CHR 0x0A],
      ''t,1,b,2'' @ [CHR 0x0A]] =
   map Inr [\<lparr>number_of = 0, name_of = ''a'', count_of = 2\<rparr>,
            \<lparr>number_of = 1, name_of = ''a'', count_of = 1\<rparr>,
            \<lparr>number_of = 0, name_of = ''b'', count_of = 1\<rparr>,
            \<lparr>number_of = 1, name_of = ''b'', count_of = 2\<rparr>] \<and>
   scan '','' init
     [''t,0,a,2'' @ [CHR 0x0A], ''t,1,a,1'' @ [CHR 0x0A], ''t,0,b,1'' @ [CHR 0x0A],
      ''t,1,b,2'' @ [CHR 0x0A]] =
   Inr \<lparr>totalOperatorCounts = [(''a'', 2), (''b'', 2)], maxOperatorSum = [(''a'', 2), (''b'', 2)],
        numberCount = [(0, 2), (1, 2)], total_lines = 4, max_number = 1\<rparr> \<and>
   fst (operator_check
     \<lparr>totalOperatorCounts = [(''a'', 2), (''b'', 2)], maxOperatorSum = [(''a'', 2), (''b'', 2)],
      numberCount = [(0, 2), (1, 2)], total_lines = 4, max_number = 1\<rparr>) = []"
  by code_simp

text \<open>
  C4. When every line can be read, the range check compares the number of lines with the
  product of the largest sequence number plus one (\<open>max_number\<close>, which starts at 0) and
  the baseline, and prints its report, with the number of lines in it, exactly when the
  two differ. On a log that is not empty the product is the same when the largest
  sequence number is taken over the observed numbers alone.
\<close>

theorem range_check_iff:
  assumes "map (read_line separator) lines = map Inr rs"
    and "scan separator init lines = Inr st"
  shows "range_check st =
         (if int (length rs) \<noteq> (Max (set (0 # map number_of rs)) + 1) * fst (parallel_sources st)
          then [[PStr ''Number of lines does not match counted elements!''],
                [PStr ''-> Total lines: '', PInt (int (length rs)), PStr '' - Max Number: '',
                 PInt (Max (set (0 # map number_of rs)) + 1)]]
          else []) \<and>
         total_lines st = int (length rs) \<and>
         max_number st = Max (set (0 # map number_of rs)) \<and>
         (rs \<noteq> [] \<longrightarrow>
            (max_number st + 1) * fst (parallel_sources st) =
            (Max (set (map number_of rs)) + 1) * fst (parallel_sources st))"
proof -
  have st: "st = foldl accumulate init rs" using assms by (rule scan_state)
  let ?ns = "map number_of rs"
  have chk: "range_check st =
         (if int (length rs) \<noteq> (Max (set (0 # ?ns)) + 1) * fst (parallel_sources st)
          then [[PStr ''Number of lines does not match counted elements!''],
                [PStr ''-> Total lines: '', PInt (int (length rs)), PStr '' - Max Number: '',
                 PInt (Max (set (0 # ?ns)) + 1)]]
          else [])"
    unfolding st by (simp only: range_check_def Let_def final_total_lines final_max_number)
  have tl: "total_lines st = int (length rs)" unfolding st by (rule final_total_lines)
  have mx: "max_number st = Max (set (0 # ?ns))" unfolding st by (rule final_max_number)
  have "(max_number st + 1) * fst (parallel_sources st) =
      (Max (set ?ns) + 1) * fst (parallel_sources st)" if "rs \<noteq> []"
  proof (cases "1 \<in> set ?ns")
    case True
    then have "1 \<le> Max (set ?ns)" by (intro Max_ge) simp_all
    moreover have "Max (set (0 # ?ns)) = max 0 (Max (set ?ns))"
      unfolding list.set(2) using that by (intro Max_insert) simp_all
    ultimately show ?thesis unfolding mx by simp
  next
    case False
    then have "count_list ?ns 1 = 0" by (rule count_notin)
    then show ?thesis unfolding st final_sources by simp
  qed
  with chk tl mx show ?thesis by blast
qed

text \<open>Three lines, largest sequence number 3, baseline 1: 3 lines against 4 expected.\<close>

theorem range_check_iff_witness:
  "range_check \<lparr>totalOperatorCounts = [(''a'', 3)], maxOperatorSum = [(''a'', 3)],
      numberCount = [(0, 1), (1, 1), (3, 1)], total_lines = 3, max_number = 3\<rparr> =
   [[PStr ''Number of lines does not match counted elements!''],
    [PStr ''-> Total lines: '', PInt 3, PStr '' - Max Number: '', PInt 4]]"
proof -
  let ?lines = "[''t,0,a,1'' @ [CHR 0x0A], ''t,1,a,2'' @ [CHR 0x0A], ''t,3,a,3'' @ [CHR 0x0A]]"
  let ?rs = "[\<lparr>number_of = 0, name_of = ''a'', count_of = 1\<rparr>,
      \<lparr>number_of = 1, name_of = ''a'', count_of = 2\<rparr>,
      \<lparr>number_of = 3, name_of = ''a'', count_of = 3\<rparr>]"
  let ?st = "\<lparr>totalOperatorCounts = [(''a'', 3)], maxOperatorSum = [(''a'', 3)],
      numberCount = [(0, 1), (1, 1), (3, 1)], total_lines = 3, max_number = 3\<rparr>"
  have r: "map (read_line '','') ?lines = map Inr ?rs" by code_simp
  have s: "scan '','' init ?lines = Inr ?st" by code_simp
  have b: "fst (parallel_sources ?st) = 1" by code_simp
  from range_check_iff [OF r s] show ?thesis unfolding b by simp
qed

text \<open>
  C5. When every line can be read, after each line the number of lines read equals the sum
  of the per-operator totals (one step adds one to each), so the check of the total against
  the per-operator totals prints nothing.
\<close>

theorem lines_equal_operator_totals:
  assumes "scan separator init lines = Inr st"
  shows "(\<forall>k \<le> length lines. \<exists>st'. scan separator init (take k lines) = Inr st' \<and>
            total_lines st' = sum_list (map snd (totalOperatorCounts st'))) \<and>
         (\<forall>s r. total_lines (accumulate s r) = total_lines s + 1 \<and>
            sum_list (map snd (totalOperatorCounts (accumulate s r))) =
              sum_list (map snd (totalOperatorCounts s)) + 1) \<and>
         per_operator_check st = []"
proof -
  from scan_records [OF assms] obtain rs
    where rs: "map (read_line separator) lines = map Inr rs" ..
  have st: "st = foldl accumulate init rs" using rs assms by (rule scan_state)
  have "\<exists>st'. scan separator init (take k lines) = Inr st' \<and>
      total_lines st' = sum_list (map snd (totalOperatorCounts st'))" for k
  proof -
    have "map (read_line separator) (take k lines) = map Inr (take k rs)"
      using rs by (simp add: take_map [symmetric])
    then have "scan separator init (take k lines) = Inr (foldl accumulate init (take k rs))"
      by (rule scan_ok)
    then show ?thesis using final_sum [of "take k rs"] by blast
  qed
  moreover have "per_operator_check st = []"
    using final_sum [of rs] by (simp add: per_operator_check_def st final_operator_check)
  ultimately show ?thesis using accumulate_sum by blast
qed

theorem lines_equal_operator_totals_witness:
  "\<exists>st. scan '','' init [''t,0,a,1'' @ [CHR 0x0A], ''t,1,b,1'' @ [CHR 0x0A]] = Inr st \<and>
     total_lines st = 2 \<and> sum_list (map snd (totalOperatorCounts st)) = 2 \<and>
     per_operator_check st = []"
proof -
  let ?st = "\<lparr>totalOperatorCounts = [(''a'', 1), (''b'', 1)],
      maxOperatorSum = [(''a'', 1), (''b'', 1)], numberCount = [(0, 1), (1, 1)],
      total_lines = 2, max_number = 1\<rparr>"
  have s: "scan '','' init [''t,0,a,1'' @ [CHR 0x0A], ''t,1,b,1'' @ [CHR 0x0A]] = Inr ?st"
    by code_simp
  from lines_equal_operator_totals [OF s] have "per_operator_check ?st = []" by simp
  with s show ?thesis by simp
qed

text \<open>
  C6. When a line of the file does not split into four fields on the separator (or cannot be
  split at all, the separator being empty), or its second or fourth field is not an
  integer for \<open>int()\<close>, and every line before it can be read, the scan stops at that line
  with \<open>ValueError\<close>, in the state that the lines before it have made, whatever follows
  the line; the run ends with this exception and has printed nothing.
\<close>

theorem malformed_line_aborts:
  assumes "files inputfile = Some content"
    and "file_lines content = good @ bad # rest"
    and "map (read_line separator) good = map Inr rs"
    and "\<forall>parts. py_split bad separator = Inr parts \<longrightarrow>
      length parts \<noteq> 4 \<or> py_int (parts ! 1) = None \<or> py_int (parts ! 3) = None"
  shows "scan separator init (file_lines content) = Inl (ValueError, foldl accumulate init rs) \<and>
         parse files inputfile separator = Raised ValueError []"
proof -
  have "read_line separator bad = Inl ValueError" using assms(4) by (rule read_line_fails)
  with assms(3) have "scan separator init (good @ bad # rest) =
      Inl (ValueError, foldl accumulate init rs)" by (rule scan_stops)
  with assms(1,2) show ?thesis by (simp add: parse_def)
qed

text \<open>The second of three lines has \<open>x\<close> for its sequence number.\<close>

theorem malformed_line_aborts_witness:
  "scan '','' init (file_lines (''t,0,a,1'' @ [CHR 0x0A] @ ''t,x,a,2'' @ [CHR 0x0A] @ ''t,1,a,2'' @ [CHR 0x0A])) =
     Inl (ValueError, \<lparr>totalOperatorCounts = [(''a'', 1)], maxOperatorSum = [(''a'', 1)],
       numberCount = [(0, 1)], total_lines = 1, max_number = 0\<rparr>) \<and>
   parse (\<lambda>p. Some (''t,0,a,1'' @ [CHR 0x0A] @ ''t,x,a,2'' @ [CHR 0x0A] @ ''t,1,a,2'' @ [CHR 0x0A]))
     ''log'' '','' = Raised ValueError []"
proof -
  let ?content = "''t,0,a,1'' @ [CHR 0x0A] @ ''t,x,a,2'' @ [CHR 0x0A] @ ''t,1,a,2'' @ [CHR 0x0A]"
  let ?r = "\<lparr>number_of = 0, name_of = ''a'', count_of = 1\<rparr>"
  have l: "file_lines ?content =
      [''t,0,a,1'' @ [CHR 0x0A]] @ (''t,x,a,2'' @ [CHR 0x0A]) # [''t,1,a,2'' @ [CHR 0x0A]]"
    by code_simp
  have g: "map (read_line '','') [''t,0,a,1'' @ [CHR 0x0A]] = map Inr [?r]"
    by code_simp
  have "py_split (''t,x,a,2'' @ [CHR 0x0A]) '','' = Inr [''t'', ''x'', ''a'', ''2'' @ [CHR 0x0A]]"
    by code_simp
  moreover have "py_int ''x'' = None" by code_simp
  ultimately have b: "\<forall>parts. py_split (''t,x,a,2'' @ [CHR 0x0A]) '','' = Inr parts \<longrightarrow>
      length parts \<noteq> 4 \<or> py_int (parts ! 1) = None \<or> py_int (parts ! 3) = None"
    by simp
  have s: "foldl accumulate init [?r] = \<lparr>totalOperatorCounts = [(''a'', 1)],
      maxOperatorSum = [(''a'', 1)], numberCount = [(0, 1)], total_lines = 1, max_number = 0\<rparr>"
    by code_simp
  from malformed_line_aborts [of "\<lambda>p. Some ?content" "''log''" ?content, OF refl l g b]
  show ?thesis by (simp only: s)
qed

text \<open>
  C7. With no argument or more than two, the program prints the usage message and exits
  with code 2, whatever the files are; with exactly one argument it parses that file with
  the separator \<open>'',''\<close>.
\<close>

theorem usage_guard:
  "(length argv = 0 \<or> length argv > 2 \<longrightarrow> main files argv = SysExit 2 usage) \<and>
   (length argv = 1 \<longrightarrow> main files argv = parse files (argv ! 0) '','')"
  by (simp add: main_def separator_of_def)

theorem usage_guard_witness:
  "main (\<lambda>p. None) [] = SysExit 2 [[PStr ''Usage: verify.py <inputfile> --separator='']] \<and>
   main (\<lambda>p. None) [''a'', ''b'', ''c''] = SysExit 2 usage \<and>
   main (\<lambda>p. None) [''log''] = parse (\<lambda>p. None) ''log'' '',''"
  using usage_guard [of "[]" "\<lambda>p. None"] usage_guard [of "[''a'', ''b'', ''c'']" "\<lambda>p. None"]
    usage_guard [of "[''log'']" "\<lambda>p. None"]
  by (simp add: usage_def)

text \<open>
  C8. With exactly two arguments, the file is parsed with the second argument from its
  offset 12 on as the separator when the second argument contains \<open>--separator=\<close>, and
  with \<open>'',''\<close> when it does not; no error comes from the choice. For an argument that
  begins with the marker, the separator is what follows the marker.
\<close>

theorem separator_option:
  "length argv = 2 \<Longrightarrow>
   main files argv =
     parse files (argv ! 0)
       (if py_in ''--separator='' (argv ! 1) then drop 12 (argv ! 1) else '','') \<and>
   (\<forall>v. argv ! 1 = ''--separator='' @ v \<longrightarrow> main files argv = parse files (argv ! 0) v)"
  by (simp add: main_def separator_of_def)

theorem separator_option_witness:
  "main (\<lambda>p. None) [''log'', ''--separator=;''] = parse (\<lambda>p. None) ''log'' '';'' \<and>
   main (\<lambda>p. None) [''log'', ''x--separator=;''] = parse (\<lambda>p. None) ''log'' ''=;'' \<and>
   main (\<lambda>p. None) [''log'', ''-s;''] = parse (\<lambda>p. None) ''log'' '',''"
  using separator_option [of "[''log'', ''--separator=;'']" "\<lambda>p. None"]
    separator_option [of "[''log'', ''x--separator=;'']" "\<lambda>p. None"]
    separator_option [of "[''log'', ''-s;'']" "\<lambda>p. None"]
  by simp

text \<open>
  C9. When every line can be read, the sequence numbers that the per-sequence-number check
  reports are strictly ascending: the check prints one line for each element of a strictly
  ascending list, whose elements are the observed sequence numbers with a count that
  differs from the baseline. The list is determined by the set of these numbers, so the
  order of the lines in the file has no part in it.
\<close>

theorem sequence_check_ascending:
  assumes "map (read_line separator) lines = map Inr rs"
    and "scan separator init lines = Inr st"
  shows "sorted_wrt (<)
           (sorted_list_of_set {k \<in> set (map number_of rs).
              int (count_list (map number_of rs) k) \<noteq> fst (parallel_sources st)}) \<and>
         sequence_check st =
           map (\<lambda>k. sequence_report k (int (count_list (map number_of rs) k))
                      (fst (parallel_sources st)))
             (sorted_list_of_set {k \<in> set (map number_of rs).
                int (count_list (map number_of rs) k) \<noteq> fst (parallel_sources st)})"
proof -
  have st: "st = foldl accumulate init rs" using assms by (rule scan_state)
  have "sorted_wrt (<) (sorted_list_of_set {k \<in> set (map number_of rs).
      int (count_list (map number_of rs) k) \<noteq> int (count_list (map number_of rs) 1)})"
    by (rule strict_sorted_list_of_set)
  then show ?thesis
    unfolding st final_sources final_sequence_check by simp
qed

text \<open>Sequence numbers 5 and 3 stand on one line each, in this order, and 1 on two.\<close>

theorem sequence_check_ascending_witness:
  "sequence_check \<lparr>totalOperatorCounts = [(''a'', 2), (''b'', 2)],
      maxOperatorSum = [(''a'', 2), (''b'', 2)], numberCount = [(5, 1), (1, 2), (3, 1)],
      total_lines = 4, max_number = 5\<rparr> =
   [sequence_report 3 1 2, sequence_report 5 1 2]"
proof -
  let ?lines = "[''t,5,a,1'' @ [CHR 0x0A], ''t,1,a,2'' @ [CHR 0x0A], ''t,3,b,1'' @ [CHR 0x0A],
      ''t,1,b,2'' @ [CHR 0x0A]]"
  let ?rs = "[\<lparr>number_of = 5, name_of = ''a'', count_of = 1\<rparr>,
      \<lparr>number_of = 1, name_of = ''a'', count_of = 2\<rparr>,
      \<lparr>number_of = 3, name_of = ''b'', count_of = 1\<rparr>,
      \<lparr>number_of = 1, name_of = ''b'', count_of = 2\<rparr>]"
  let ?st = "\<lparr>totalOperatorCounts = [(''a'', 2), (''b'', 2)],
      maxOperatorSum = [(''a'', 2), (''b'', 2)], numberCount = [(5, 1), (1, 2), (3, 1)],
      total_lines = 4, max_number = 5\<rparr>"
  have r: "map (read_line '','') ?lines = map Inr ?rs" by code_simp
  have s: "scan '','' init ?lines = Inr ?st" by code_simp
  have b: "fst (parallel_sources ?st) = 2" by code_simp
  have "{k \<in> set (map number_of ?rs). int (count_list (map number_of ?rs) k) \<noteq> 2} = {3, 5}"
    by auto
  then have k: "sorted_list_of_set {k \<in> set (map number_of ?rs).
      int (count_list (map number_of ?rs) k) \<noteq> 2} = [3, 5]"
    by simp
  from sequence_check_ascending [OF r s] show ?thesis unfolding b k by simp
qed

text \<open>
  C10. When every line can be read and no line has sequence number 1, the baseline lookup
  appends key 1 with value 0 to \<open>numberCount\<close> and returns 0; the per-sequence-number
  check prints one line for every observed sequence number, in ascending order, each with
  its positive count and the baseline 0, and no line for key 1.
\<close>

theorem baseline_lookup_inserts:
  assumes "map (read_line separator) lines = map Inr rs"
    and "scan separator init lines = Inr st"
    and "1 \<notin> set (map number_of rs)"
  shows "parallel_sources st = (0, numberCount st @ [(1, 0)]) \<and>
         sequence_check st =
           map (\<lambda>k. sequence_report k (int (count_list (map number_of rs) k)) 0)
             (sorted_list_of_set (set (map number_of rs))) \<and>
         (\<forall>k \<in> set (map number_of rs). 0 < count_list (map number_of rs) k) \<and>
         (\<forall>v n. sequence_report 1 v n \<notin> set (sequence_check st))"
proof -
  have st: "st = foldl accumulate init rs" using assms(1,2) by (rule scan_state)
  have z: "count_list (map number_of rs) 1 = 0" using assms(3) by (rule count_notin)
  have pos: "0 < count_list (map number_of rs) k" if "k \<in> set (map number_of rs)" for k
    using that count_list_0_iff [of "map number_of rs" k] by simp
  then have "{k \<in> set (map number_of rs). int (count_list (map number_of rs) k) \<noteq> int 0} =
      set (map number_of rs)" by auto
  then have sc: "sequence_check st =
      map (\<lambda>k. sequence_report k (int (count_list (map number_of rs) k)) 0)
        (sorted_list_of_set (set (map number_of rs)))"
    unfolding st final_sequence_check z by simp
  have "sequence_report 1 v n \<notin> set (sequence_check st)" for v n
    using assms(3) unfolding sc by (auto simp: sequence_report_def)
  with sc pos final_sources_absent [OF assms(3)] show ?thesis unfolding st by blast
qed

text \<open>Two lines, with the sequence numbers 2 and 0.\<close>

theorem baseline_lookup_inserts_witness:
  "parallel_sources \<lparr>totalOperatorCounts = [(''a'', 2)], maxOperatorSum = [(''a'', 2)],
      numberCount = [(2, 1), (0, 1)], total_lines = 2, max_number = 2\<rparr> =
     (0, [(2, 1), (0, 1), (1, 0)]) \<and>
   sequence_check \<lparr>totalOperatorCounts = [(''a'', 2)], maxOperatorSum = [(''a'', 2)],
      numberCount = [(2, 1), (0, 1)], total_lines = 2, max_number = 2\<rparr> =
     [sequence_report 0 1 0, sequence_report 2 1 0]"
proof -
  let ?lines = "[''t,2,a,1'' @ [CHR 0x0A], ''t,0,a,2'' @ [CHR 0x0A]]"
  let ?rs = "[\<lparr>number_of = 2, name_of = ''a'', count_of = 1\<rparr>,
      \<lparr>number_of = 0, name_of = ''a'', count_of = 2\<rparr>]"
  let ?st = "\<lparr>totalOperatorCounts = [(''a'', 2)], maxOperatorSum = [(''a'', 2)],
      numberCount = [(2, 1), (0, 1)], total_lines = 2, max_number = 2\<rparr>"
  have r: "map (read_line '','') ?lines = map Inr ?rs" by code_simp
  have s: "scan '','' init ?lines = Inr ?st" by code_simp
  have n: "1 \<notin> set (map number_of ?rs)" by simp
  have k: "sorted_list_of_set (set (map number_of ?rs)) = [0, 2]" by simp
  from baseline_lookup_inserts [OF r s n] show ?thesis unfolding k by simp
qed

end
